theory Spec2Isabelle
  imports Main "HOL-Library.Word" "HOL-Library.Multiset"
begin

text \<open>
  The client of the outline editor: the local reorder of the section tree
  (\<open>reorderTreeLocally\<close>, \<open>normalizeLocalOrders\<close>), the handlers of the application
  that move, rename and delete sections, the save of a rename in a row, and the request
  functions. Values are compared by content, not by object identity; asynchronous
  handlers are functions on the state that take the settled values of the requests they
  await as arguments.
\<close>

section \<open>Data model (frontend/src/types.ts)\<close>

text \<open>
  A JavaScript string is a sequence of UTF-16 code units. Node identifiers, keys and
  names are such strings; \<open>str\<close> writes an ASCII literal as code units.
\<close>

type_synonym jsstring = "16 word list"

definition str :: "string \<Rightarrow> jsstring" where
  "str s = map of_char s"

text \<open>\<^verbatim>\<open>export type DropPosition = "before" | "after"\<close>\<close>

datatype DropPosition = Before | After

text \<open>
  \<^verbatim>\<open>export type SectionNode = { id; parent_id; section_key; name; is_leaf; order; children }\<close>.
  The field \<open>id\<close> is the selector \<open>id_of\<close> (\<open>id\<close> is the identity function of HOL);
  \<open>parent_id\<close> is \<open>string | null\<close>; \<open>order\<close> is the integer sibling position.
\<close>

datatype SectionNode = SectionNode
  (id_of: jsstring)
  (parent_id: "jsstring option")
  (section_key: jsstring)
  (name: jsstring)
  (is_leaf: bool)
  (order: int)
  (children: "SectionNode list")

text \<open>The object spreads \<^verbatim>\<open>{ ...n, order: k }\<close> and \<^verbatim>\<open>{ ...n, children: cs }\<close>.\<close>

definition set_order :: "SectionNode \<Rightarrow> int \<Rightarrow> SectionNode" where
  "set_order n k =
     SectionNode (id_of n) (parent_id n) (section_key n) (name n) (is_leaf n) k (children n)"

definition set_children :: "SectionNode \<Rightarrow> SectionNode list \<Rightarrow> SectionNode" where
  "set_children n cs =
     SectionNode (id_of n) (parent_id n) (section_key n) (name n) (is_leaf n) (order n) cs"

section \<open>Array primitives used by the reorder\<close>

text \<open>
  \<^verbatim>\<open>Array.prototype.findIndex\<close>: the index of the first element that satisfies the
  predicate, \<open>-1\<close> when there is none.
\<close>

fun findIndex :: "('a \<Rightarrow> bool) \<Rightarrow> 'a list \<Rightarrow> int" where
  "findIndex P [] = - 1"
| "findIndex P (x # xs) =
     (if P x then 0 else (let r = findIndex P xs in if r = - 1 then - 1 else r + 1))"

text \<open>
  \<^verbatim>\<open>Array.prototype.splice(start, deleteCount, ...items)\<close> on a copy: a negative start
  counts from the end, a start beyond the end is the end, and no more elements are
  deleted than remain. The result is the array afterwards and the removed elements.
\<close>

definition splice :: "'a list \<Rightarrow> int \<Rightarrow> nat \<Rightarrow> 'a list \<Rightarrow> 'a list \<times> 'a list" where
  "splice xs start deleteCount items =
     (let len = length xs;
          s = (if start < 0 then nat (max (int len + start) 0) else min (nat start) len);
          dc = min deleteCount (len - s)
      in (take s xs @ items @ drop (s + dc) xs, take dc (drop s xs)))"

section \<open>Local reorder (frontend/src/types.ts: normalizeLocalOrders, reorderTreeLocally)\<close>

text \<open>\<^verbatim>\<open>list.map((n, idx) => ({ ...n, order: idx + 1 }))\<close>\<close>

definition normalizeLocalOrders :: "SectionNode list \<Rightarrow> SectionNode list" where
  "normalizeLocalOrders list =
     map (\<lambda>(n, idx). set_order n (int idx + 1)) (zip list [0..<length list])"

text \<open>
  The inner \<open>walk\<close> of \<open>reorderTreeLocally\<close>, with the captured \<open>sectionId\<close>,
  \<open>targetId\<close> and \<open>position\<close> as arguments. It returns the pair \<open>{list, changed}\<close>.
  The destructuring \<^verbatim>\<open>const [moved] = next.splice(from, 1)\<close> always finds an element,
  since \<open>from\<close> is an index of the list; the other case of the pattern match is there
  for totality only. In the second part every element is visited by \<open>map\<close>, whether or
  not an earlier one has set \<open>changed\<close>.
\<close>

function walk ::
  "jsstring \<Rightarrow> jsstring \<Rightarrow> DropPosition \<Rightarrow> SectionNode list \<Rightarrow> SectionNode list \<times> bool" where
  "walk sectionId targetId position list =
     (let from = findIndex (\<lambda>n. id_of n = sectionId) list;
          to = findIndex (\<lambda>n. id_of n = targetId) list
      in if from \<noteq> - 1 \<and> to \<noteq> - 1 then
           (case splice list from 1 [] of
              (next1, moved # _) \<Rightarrow>
                (let insertAt =
                       (if from < to then (if position = Before then to - 1 else to)
                        else (if position = Before then to else to + 1));
                     next2 = fst (splice next1 insertAt 0 [moved])
                 in (normalizeLocalOrders next2, True))
            | (next1, []) \<Rightarrow> (list, False))
         else
           (let results = map (\<lambda>n.
                    if children n = [] then (n, False)
                    else (let result = walk sectionId targetId position (children n)
                          in if \<not> snd result then (n, False)
                             else (set_children n (fst result), True))) list;
                changed = list_ex snd results
            in (if changed then map fst results else list, changed)))"
  by pat_completeness auto
termination
proof (relation "measure (\<lambda>(s, t, p, l). size_list size l)")
  show "wf (measure (\<lambda>(s, t, p, l). size_list size l))"
    by simp
next
  fix sectionId targetId :: jsstring and position :: DropPosition
    and list :: "SectionNode list" and n :: SectionNode
  assume "n \<in> set list"
  then have "size n \<le> size_list size list"
    by (simp add: size_list_estimation')
  moreover have "size_list size (children n) < size n"
    by (cases n) simp
  ultimately show "((sectionId, targetId, position, children n),
      (sectionId, targetId, position, list)) \<in> measure (\<lambda>(s, t, p, l). size_list size l)"
    by simp
qed

declare walk.simps [simp del]

definition reorderTreeLocally ::
  "SectionNode list \<Rightarrow> jsstring \<Rightarrow> jsstring \<Rightarrow> DropPosition \<Rightarrow> SectionNode list" where
  "reorderTreeLocally nodes sectionId targetId position =
     fst (walk sectionId targetId position nodes)"

section \<open>String trimming (String.prototype.trim)\<close>

text \<open>
  The code units that \<open>trim\<close> strips: the ECMAScript white space and line terminator
  code points, all of them in the Basic Multilingual Plane.
\<close>

definition js_whitespace :: "16 word \<Rightarrow> bool" where
  "js_whitespace c =
     (c \<in> set [0x9, 0xA, 0xB, 0xC, 0xD, 0x20, 0xA0, 0x1680, 0x2028, 0x2029, 0x202F,
                0x205F, 0x3000, 0xFEFF]
      \<or> (0x2000 \<le> c \<and> c \<le> 0x200A))"

definition trim :: "jsstring \<Rightarrow> jsstring" where
  "trim s = rev (dropWhile js_whitespace (rev (dropWhile js_whitespace s)))"

section \<open>Requests (frontend/src/api.ts)\<close>

text \<open>
  What an \<open>await\<close> can throw. \<open>Error m\<close> is \<^verbatim>\<open>new Error(m)\<close>; \<open>SyntaxError\<close> and
  \<open>TypeError\<close> are raised by the engine, with its own message; \<open>NonError\<close> is a thrown
  value that is not an instance of \<open>Error\<close>.
\<close>

datatype js_error = Error jsstring | SyntaxError jsstring | TypeError jsstring | NonError

text \<open>\<^verbatim>\<open>e instanceof Error ? e.message : fallback\<close>\<close>

definition error_text :: "js_error \<Rightarrow> jsstring \<Rightarrow> jsstring" where
  "error_text e fallback =
     (case e of Error m \<Rightarrow> m | SyntaxError m \<Rightarrow> m | TypeError m \<Rightarrow> m | NonError \<Rightarrow> fallback)"

text \<open>
  The value of the property \<open>detail\<close> of a parsed body, as far as \<^verbatim>\<open>data.detail || fallback\<close>
  and \<^verbatim>\<open>new Error(...)\<close> look at it: a string; a falsy value that is not a string
  (\<open>null\<close>, \<open>false\<close>, \<open>0\<close>); or another truthy value (\<open>true\<close>, a number that is not
  zero, an array, an object), given with the string that \<open>new Error\<close> converts it to.
\<close>

datatype detail_value = DString jsstring | DFalsy | DTruthy jsstring

text \<open>
  What \<^verbatim>\<open>await res.json()\<close> meets: a body that is not JSON (the promise rejects with
  a \<open>SyntaxError\<close>), the JSON value \<open>null\<close>, or another JSON value, with its property
  \<open>detail\<close> when it has one and with the value itself at the type the function declares for it.
  What \<^verbatim>\<open>await fetch(...)\<close> gives: a rejection (a network failure, a \<open>TypeError\<close>)
  or a response with its \<open>ok\<close> flag and its body.
\<close>

datatype 'd body = NotJson jsstring | JsonNull | Json (detail: "detail_value option") (payload: 'd)

datatype 'd http = Rejected jsstring | Response (ok: bool) (body: "'d body")










text \<open>
  The address \<open>deleteSectionRequest\<close> sends to,
  \<^verbatim>\<open>`${API_BASE}/sections/${sectionId}?strategy=${strategy}`\<close>, with the default
  \<open>lift_children\<close> of the parameter when the caller gives none.
\<close>

datatype strategy = Lift_children | Cascade

definition API_BASE :: jsstring where
  "API_BASE = str ''http://127.0.0.1:8000''"

definition strategy_text :: "strategy \<Rightarrow> jsstring" where
  "strategy_text s = (case s of Lift_children \<Rightarrow> str ''lift_children'' | Cascade \<Rightarrow> str ''cascade'')"

definition deleteSectionRequest_url :: "jsstring \<Rightarrow> strategy option \<Rightarrow> jsstring" where
  "deleteSectionRequest_url sectionId given =
     (let strategy = (case given of None \<Rightarrow> Lift_children | Some s \<Rightarrow> s)
      in API_BASE @ str ''/sections/'' @ sectionId @ str ''?strategy='' @ strategy_text strategy)"

section \<open>The application state and its handlers (frontend/src/types.ts: App)\<close>

text \<open>A call of a request function of \<open>api.ts\<close>, with the arguments that matter here.\<close>

datatype api_call =
    FetchSections
  | ImportSections
  | MoveSection jsstring jsstring DropPosition
  | RenameSection jsstring jsstring
  | CreateSection jsstring "jsstring option" "jsstring option" DropPosition
  | DeleteSection jsstring strategy

text \<open>
  The \<open>useState\<close> cells of \<open>App\<close> that the handlers below write, and two fields that
  record their effects on the outside: \<open>calls\<close>, the request functions called so far
  (oldest first), and \<open>dialogs\<close>, the number of confirmation dialogs opened. A handler
  is a function on this state; the settled value of each request it awaits is an argument,
  at the type \<open>api.ts\<close> declares for it (\<open>Inl\<close> when the promise rejects). The closure's
  \<open>tree\<close> is the current one: no other update comes between. Restoring the scroll
  position is not part of the state.
\<close>

record app_state =
  tree :: "SectionNode list"
  loading :: bool
  importing :: bool
  error :: jsstring
  info :: jsstring
  moving :: bool
  renamingId :: "jsstring option"
  creatingId :: "jsstring option"
  deletingId :: "jsstring option"
  activeId :: "jsstring option"
  overId :: "jsstring option"
  calls :: "api_call list"
  dialogs :: nat

text \<open>\<open>loadSections(options)\<close>: it catches what \<open>fetchSections\<close> throws, so it never throws.\<close>

definition loadSections ::
  "bool \<Rightarrow> js_error + SectionNode list \<Rightarrow> app_state \<Rightarrow> app_state" where
  "loadSections silent fetched st =
     (let st1 = (if \<not> silent then st\<lparr>loading := True, error := []\<rparr> else st);
          st2 = st1\<lparr>calls := calls st1 @ [FetchSections]\<rparr>;
          st3 = (case fetched of
                   Inr data \<Rightarrow> st2\<lparr>tree := data\<rparr>
                 | Inl e \<Rightarrow> st2\<lparr>error := error_text e (str ''Unknown error'')\<rparr>)
      in if \<not> silent then st3\<lparr>loading := False\<rparr> else st3)"

text \<open>
  \<open>getNodeMeta\<close>: the map from a node's id to its \<open>{parentId, order}\<close>, filled in
  pre-order; a later node with the same id overwrites an earlier one.
\<close>

datatype NodeMeta = NodeMeta (parentId: "jsstring option") (meta_order: int)

fun getNodeMeta_walk ::
  "SectionNode list \<Rightarrow> (jsstring \<rightharpoonup> NodeMeta) \<Rightarrow> (jsstring \<rightharpoonup> NodeMeta)" where
  "getNodeMeta_walk [] meta = meta"
| "getNodeMeta_walk (SectionNode i p k nm lf ord cs # rest) meta =
     (let meta1 = meta(i \<mapsto> NodeMeta p ord);
          meta2 = (if cs \<noteq> [] then getNodeMeta_walk cs meta1 else meta1)
      in getNodeMeta_walk rest meta2)"

definition getNodeMeta :: "SectionNode list \<Rightarrow> (jsstring \<rightharpoonup> NodeMeta)" where
  "getNodeMeta nodes = getNodeMeta_walk nodes Map.empty"

text \<open>
  \<open>moveSectionByAnchor(sectionId, targetId)\<close>, with the settled values of
  \<open>moveSectionRequest\<close> and of the \<open>fetchSections\<close> inside \<open>loadSections\<close>.
\<close>

definition moveSectionByAnchor ::
  "jsstring \<Rightarrow> jsstring \<Rightarrow> js_error + unit \<Rightarrow> js_error + SectionNode list \<Rightarrow>
     app_state \<Rightarrow> app_state" where
  "moveSectionByAnchor sectionId targetId moved fetched st =
     (if sectionId = targetId then st
      else
        (let meta = getNodeMeta (tree st) in
         case meta sectionId of
           None \<Rightarrow> st
         | Some dragged \<Rightarrow>
             (case meta targetId of
                None \<Rightarrow> st
              | Some target \<Rightarrow>
                  if parentId dragged \<noteq> parentId target
                  then st\<lparr>error := str ''Cross-parent moves are not allowed.''\<rparr>
                  else
                    (let position =
                           (if meta_order dragged < meta_order target then After else Before);
                         st1 = st\<lparr>moving := True, error := []\<rparr>;
                         previousTree = tree st;
                         st2 = st1\<lparr>tree :=
                                 reorderTreeLocally (tree st1) sectionId targetId position\<rparr>;
                         st3 = st2\<lparr>calls :=
                                 calls st2 @ [MoveSection sectionId targetId position]\<rparr>;
                         st4 = (case moved of
                                  Inr _ \<Rightarrow> loadSections True fetched st3
                                | Inl e \<Rightarrow>
                                    st3\<lparr>tree := previousTree,
                                        error := error_text e (str ''Move failed'')\<rparr>)
                     in st4\<lparr>moving := False, activeId := None, overId := None\<rparr>))))"

text \<open>\<open>renameSection(sectionId, name)\<close>\<close>

definition renameSection ::
  "jsstring \<Rightarrow> jsstring \<Rightarrow> js_error + unit \<Rightarrow> js_error + SectionNode list \<Rightarrow>
     app_state \<Rightarrow> app_state" where
  "renameSection sectionId new_name renamed fetched st =
     (let st1 = st\<lparr>error := [], renamingId := Some sectionId\<rparr>;
          st2 = st1\<lparr>calls := calls st1 @ [RenameSection sectionId new_name]\<rparr>;
          st3 = (case renamed of
                   Inr _ \<Rightarrow> loadSections True fetched st2
                 | Inl e \<Rightarrow> st2\<lparr>error := error_text e (str ''Rename failed'')\<rparr>)
      in st3\<lparr>renamingId := None\<rparr>)"

text \<open>
  \<open>onDeleteSection(node)\<close>. For a node with children it opens \<open>Modal.confirm\<close> and
  returns; \<open>confirmed\<close> says whether the user then presses the OK button, which runs
  \<open>onOk\<close>. No \<open>onCancel\<close> is installed.
\<close>

definition onDeleteSection ::
  "SectionNode \<Rightarrow> bool \<Rightarrow> js_error + unit \<Rightarrow> js_error + SectionNode list \<Rightarrow>
     app_state \<Rightarrow> app_state" where
  "onDeleteSection node confirmed deleted fetched st =
     (if children node \<noteq> [] then
        (let st0 = st\<lparr>dialogs := dialogs st + 1\<rparr> in
         if confirmed then
           (let st1 = st0\<lparr>deletingId := Some (id_of node), error := []\<rparr>;
                st2 = st1\<lparr>calls := calls st1 @ [DeleteSection (id_of node) Cascade]\<rparr>;
                st3 = (case deleted of
                         Inr _ \<Rightarrow> loadSections True fetched st2
                       | Inl e \<Rightarrow> st2\<lparr>error := error_text e (str ''Delete failed'')\<rparr>)
            in st3\<lparr>deletingId := None\<rparr>)
         else st0)
      else
        (let st1 = st\<lparr>deletingId := Some (id_of node), error := []\<rparr>;
             st2 = st1\<lparr>calls := calls st1 @ [DeleteSection (id_of node) Lift_children]\<rparr>;
             st3 = (case deleted of
                      Inr _ \<Rightarrow> loadSections True fetched st2
                    | Inl e \<Rightarrow> st2\<lparr>error := error_text e (str ''Delete failed'')\<rparr>)
         in st3\<lparr>deletingId := None\<rparr>))"

section \<open>Saving a rename (components/SectionRow.tsx: handleSave)\<close>

text \<open>
  The row's own state, and \<open>handleSave\<close> with the property \<open>onRename\<close> as a function
  on the state of the component that owns it.
\<close>

record row_state =
  isEditing :: bool
  draftName :: jsstring

definition handleSave ::
  "(jsstring \<Rightarrow> jsstring \<Rightarrow> 's \<Rightarrow> 's) \<Rightarrow> SectionNode \<Rightarrow> row_state \<times> 's \<Rightarrow> row_state \<times> 's" where
  "handleSave onRename node = (\<lambda>(row, app).
     (let trimmed = trim (draftName row) in
      if trimmed = [] \<or> trimmed = name node
      then (row\<lparr>isEditing := False, draftName := name node\<rparr>, app)
      else (row\<lparr>isEditing := False\<rparr>, onRename (id_of node) trimmed app)))"

section \<open>Vocabulary of the properties\<close>

text \<open>
  The ids of all nodes of a forest in pre-order, and its sibling lists: the list of
  roots and the \<open>children\<close> list of every node.
\<close>

fun tree_ids :: "SectionNode list \<Rightarrow> jsstring list" where
  "tree_ids [] = []"
| "tree_ids (SectionNode i p k nm lf ord cs # rest) = i # tree_ids cs @ tree_ids rest"

fun below :: "SectionNode list \<Rightarrow> SectionNode list list" where
  "below [] = []"
| "below (SectionNode i p k nm lf ord cs # rest) = cs # below cs @ below rest"

definition groups :: "SectionNode list \<Rightarrow> SectionNode list list" where
  "groups nodes = nodes # below nodes"

text \<open>All nodes of a forest, in pre-order.\<close>

fun nodes_of :: "SectionNode list \<Rightarrow> SectionNode list" where
  "nodes_of [] = []"
| "nodes_of (SectionNode i p k nm lf ord cs # rest) =
     SectionNode i p k nm lf ord cs # nodes_of cs @ nodes_of rest"

definition contains_both :: "jsstring \<Rightarrow> jsstring \<Rightarrow> SectionNode list \<Rightarrow> bool" where
  "contains_both sectionId targetId g =
     (sectionId \<in> set (map id_of g) \<and> targetId \<in> set (map id_of g))"

text \<open>A node without its \<open>order\<close>: what a renumbering must keep.\<close>

definition erase_order :: "SectionNode \<Rightarrow> SectionNode" where
  "erase_order n = set_order n 0"

text \<open>
  \<open>subst_group g g' old new\<close>: the forest \<open>new\<close> is \<open>old\<close> with one sibling list \<open>g\<close>
  replaced by \<open>g'\<close>. The nodes above that list differ in their \<open>children\<close> only, and
  every other node is the same.
\<close>

fun subst_below ::
  "SectionNode list \<Rightarrow> SectionNode list \<Rightarrow> SectionNode list \<Rightarrow> SectionNode list \<Rightarrow> bool" where
  "subst_below g g' (SectionNode i p k nm lf ord cs # rest) (n' # rest') =
     ((rest' = rest \<and> n' = SectionNode i p k nm lf ord (children n') \<and>
         ((cs = g \<and> children n' = g') \<or> subst_below g g' cs (children n')))
      \<or> (n' = SectionNode i p k nm lf ord cs \<and> subst_below g g' rest rest'))"
| "subst_below g g' old new = False"

definition subst_group ::
  "SectionNode list \<Rightarrow> SectionNode list \<Rightarrow> SectionNode list \<Rightarrow> SectionNode list \<Rightarrow> bool" where
  "subst_group g g' old new = ((old = g \<and> new = g') \<or> subst_below g g' old new)"

text \<open>
  The outermost sibling lists that contain both ids, in traversal order: the lists that
  \<open>walk\<close> reaches and rewrites.
\<close>

function affected :: "jsstring \<Rightarrow> jsstring \<Rightarrow> SectionNode list \<Rightarrow> SectionNode list list" where
  "affected sectionId targetId nodes =
     (if contains_both sectionId targetId nodes then [nodes]
      else concat (map (\<lambda>n. affected sectionId targetId (children n)) nodes))"
  by pat_completeness auto
termination
proof (relation "measure (\<lambda>(s, t, l). size_list size l)")
  show "wf (measure (\<lambda>(s, t, l). size_list size l))"
    by simp
next
  fix sectionId targetId :: jsstring and nodes :: "SectionNode list" and n :: SectionNode
  assume "n \<in> set nodes"
  then have "size n \<le> size_list size nodes"
    by (simp add: size_list_estimation')
  moreover have "size_list size (children n) < size n"
    by (cases n) simp
  ultimately show "((sectionId, targetId, children n), (sectionId, targetId, nodes))
      \<in> measure (\<lambda>(s, t, l). size_list size l)"
    by simp
qed

declare affected.simps [simp del]

section \<open>Example forests\<close>

text \<open>
  A childless node named by its identifier, under the parent \<open>P\<close>; a root node named by
  its identifier, with the given children.
\<close>

definition sibling :: "string \<Rightarrow> int \<Rightarrow> SectionNode" where
  "sibling s k = SectionNode (str s) (Some (str ''P'')) (str s) (str s) True k []"

definition entry :: "string \<Rightarrow> int \<Rightarrow> SectionNode list \<Rightarrow> SectionNode" where
  "entry s k cs = SectionNode (str s) None (str s) (str s) (cs = []) k cs"

text \<open>The root \<open>P\<close> with the children A, B, C, and the root \<open>Q\<close>.\<close>

definition outline :: "SectionNode list" where
  "outline = [entry ''P'' 1 [sibling ''A'' 1, sibling ''B'' 2, sibling ''C'' 3], entry ''Q'' 2 []]"

text \<open>A forest in which the ids A and B are used twice.\<close>

definition side_by_side :: "SectionNode list" where
  "side_by_side = [entry ''X'' 1 [entry ''A'' 1 [], entry ''B'' 2 []],
                   entry ''Y'' 2 [entry ''C'' 1 [], entry ''A'' 2 [], entry ''B'' 3 []]]"

text \<open>A state of the application that shows \<open>outline\<close>, while A is dragged over C.\<close>

definition start :: app_state where
  "start = \<lparr>tree = outline, loading = False, importing = False, error = [], info = [],
     moving = False, renamingId = None, creatingId = None, deletingId = None,
     activeId = Some (str ''A''), overId = Some (str ''C''), calls = [], dialogs = 0\<rparr>"

section \<open>Lemmas about the reorder\<close>

subsection \<open>findIndex and splice\<close>

lemma findIndex_ge: "- 1 \<le> findIndex P xs"
  by (induction xs) (auto simp: Let_def)

lemma findIndex_none_iff: "findIndex P xs = - 1 \<longleftrightarrow> (\<forall>x\<in>set xs. \<not> P x)"
proof (induction xs)
  case Nil
  show ?case by simp
next
  case (Cons x xs)
  have "- 1 \<le> findIndex P xs" by (rule findIndex_ge)
  with Cons show ?case by (auto simp: Let_def)
qed

lemma findIndex_append:
  "\<forall>n\<in>set p. \<not> P n \<Longrightarrow> P m \<Longrightarrow> findIndex P (p @ m # q) = int (length p)"
  by (induction p) (auto simp: Let_def)

lemma splice_remove: "splice (p @ m # q) (int (length p)) (Suc 0) [] = (p @ q, [m])"
  by (simp add: splice_def Let_def)

lemma splice_insert: "splice (a @ b) (int (length a)) 0 [m] = (a @ m # b, [])"
  by (simp add: splice_def Let_def)

lemma splice_insert_mset: "mset (fst (splice xs i 0 [m])) = add_mset m (mset xs)"
proof -
  have "mset (take s xs) + mset (drop s xs) = mset xs" for s
    by (metis append_take_drop_id mset_append)
  then show ?thesis
    by (simp add: splice_def Let_def)
qed

lemma contains_both_findIndex:
  "contains_both sid tid g \<longleftrightarrow>
     findIndex (\<lambda>n. id_of n = sid) g \<noteq> - 1 \<and> findIndex (\<lambda>n. id_of n = tid) g \<noteq> - 1"
  by (auto simp: contains_both_def findIndex_none_iff)

subsection \<open>The rewritten sibling list\<close>

lemma walk_found:
  assumes "contains_both sid tid g"
  shows "\<exists>l. walk sid tid pos g = (normalizeLocalOrders l, True) \<and> mset l = mset g"
proof -
  from assms have "\<exists>x\<in>set g. id_of x = sid"
    by (auto simp: contains_both_def)
  from split_list_first_prop [OF this]
  obtain p m q where g: "g = p @ m # q" and m: "id_of m = sid"
    and p: "\<forall>n\<in>set p. id_of n \<noteq> sid" by blast
  have f: "findIndex (\<lambda>n. id_of n = sid) g = int (length p)"
    unfolding g using p m by (intro findIndex_append) auto
  have r: "splice g (int (length p)) (Suc 0) [] = (p @ q, [m])"
    unfolding g by (rule splice_remove)
  from assms have c: "findIndex (\<lambda>n. id_of n = sid) g \<noteq> - 1 \<and>
      findIndex (\<lambda>n. id_of n = tid) g \<noteq> - 1"
    by (simp add: contains_both_findIndex)
  define i where "i = (if int (length p) < findIndex (\<lambda>n. id_of n = tid) g
      then (if pos = Before then findIndex (\<lambda>n. id_of n = tid) g - 1
            else findIndex (\<lambda>n. id_of n = tid) g)
      else (if pos = Before then findIndex (\<lambda>n. id_of n = tid) g
            else findIndex (\<lambda>n. id_of n = tid) g + 1))"
  have w: "walk sid tid pos g = (normalizeLocalOrders (fst (splice (p @ q) i 0 [m])), True)"
    using c by (subst walk.simps) (simp add: f r Let_def i_def)
  have "mset (fst (splice (p @ q) i 0 [m])) = mset g"
    by (simp add: splice_insert_mset g)
  with w show ?thesis by blast
qed

lemma walk_found_later:
  assumes p: "\<forall>n\<in>set p. id_of n \<noteq> sid \<and> id_of n \<noteq> tid"
    and m: "id_of m = sid" "sid \<noteq> tid"
    and q: "\<forall>n\<in>set q1. id_of n \<noteq> tid" and t: "id_of t = tid"
  shows "walk sid tid pos (p @ m # q1 @ t # q2) =
    (normalizeLocalOrders (if pos = Before then p @ q1 @ m # t # q2 else p @ q1 @ t # m # q2), True)"
proof -
  let ?g = "p @ m # q1 @ t # q2"
  have f: "findIndex (\<lambda>n. id_of n = sid) ?g = int (length p)"
    using p m by (simp add: findIndex_append)
  have "findIndex (\<lambda>n. id_of n = tid) ((p @ m # q1) @ t # q2) = int (length (p @ m # q1))"
    using p m q t by (intro findIndex_append) auto
  then have to: "findIndex (\<lambda>n. id_of n = tid) ?g = int (length p) + 1 + int (length q1)"
    by simp
  have r: "splice ?g (int (length p)) (Suc 0) [] = (p @ q1 @ t # q2, [m])"
    by (rule splice_remove)
  have i1: "splice (p @ q1 @ t # q2) (int (length p) + int (length q1)) 0 [m]
      = (p @ q1 @ m # t # q2, [])"
    using splice_insert [of "p @ q1" "t # q2" m] by (simp add: algebra_simps)
  have i2: "splice (p @ q1 @ t # q2) (int (length p) + 1 + int (length q1)) 0 [m]
      = (p @ q1 @ t # m # q2, [])"
    using splice_insert [of "p @ q1 @ [t]" "q2" m] by (simp add: algebra_simps)
  show ?thesis
    by (subst walk.simps) (simp add: f to r i1 i2 Let_def)
qed

lemma walk_found_earlier:
  assumes a: "\<forall>n\<in>set a. id_of n \<noteq> sid \<and> id_of n \<noteq> tid"
    and t: "id_of t = tid" "sid \<noteq> tid"
    and p2: "\<forall>n\<in>set p2. id_of n \<noteq> sid" and m: "id_of m = sid"
  shows "walk sid tid pos (a @ t # p2 @ m # q) =
    (normalizeLocalOrders (if pos = Before then a @ m # t # p2 @ q else a @ t # m # p2 @ q), True)"
proof -
  let ?g = "a @ t # p2 @ m # q"
  have "findIndex (\<lambda>n. id_of n = sid) ((a @ t # p2) @ m # q) = int (length (a @ t # p2))"
    using a t p2 m by (intro findIndex_append) auto
  then have f: "findIndex (\<lambda>n. id_of n = sid) ?g = int (length a) + 1 + int (length p2)"
    by simp
  have to: "findIndex (\<lambda>n. id_of n = tid) ?g = int (length a)"
    using a t by (simp add: findIndex_append)
  have r: "splice ?g (int (length a) + 1 + int (length p2)) (Suc 0) [] = (a @ t # p2 @ q, [m])"
    using splice_remove [of "a @ t # p2" m q] by (simp add: algebra_simps)
  have i1: "splice (a @ t # p2 @ q) (int (length a)) 0 [m] = (a @ m # t # p2 @ q, [])"
    by (rule splice_insert)
  have i2: "splice (a @ t # p2 @ q) (int (length a) + 1) 0 [m] = (a @ t # m # p2 @ q, [])"
    using splice_insert [of "a @ [t]" "p2 @ q" m] by (simp add: algebra_simps)
  show ?thesis
    by (subst walk.simps) (simp add: f to r i1 i2 Let_def)
qed

text \<open>
  A list that contains both ids, the moved node \<open>m\<close> taken out of its slot and put next
  to the target \<open>t\<close>: one statement for both directions.
\<close>

lemma walk_in_place:
  assumes "contains_both sid tid g" "sid \<noteq> tid"
  shows "\<exists>p m q a t b.
      g = p @ m # q \<and> id_of m = sid \<and> (\<forall>n\<in>set p. id_of n \<noteq> sid) \<and>
      p @ q = a @ t # b \<and> id_of t = tid \<and> (\<forall>n\<in>set a. id_of n \<noteq> tid) \<and>
      walk sid tid pos g =
        (normalizeLocalOrders (if pos = Before then a @ m # t # b else a @ t # m # b), True)"
proof -
  from assms(1) have "\<exists>x\<in>set g. id_of x = sid \<or> id_of x = tid"
    by (auto simp: contains_both_def)
  from split_list_first_prop [OF this]
  obtain u x v where g: "g = u @ x # v" and x: "id_of x = sid \<or> id_of x = tid"
    and u: "\<forall>n\<in>set u. \<not> (id_of n = sid \<or> id_of n = tid)"
    by blast
  from u have u': "\<forall>n\<in>set u. id_of n \<noteq> sid \<and> id_of n \<noteq> tid" by blast
  from x show ?thesis
  proof
    assume xs: "id_of x = sid"
    with assms g u have "\<exists>y\<in>set v. id_of y = tid"
      by (auto simp: contains_both_def)
    from split_list_first_prop [OF this]
    obtain q1 t q2 where v: "v = q1 @ t # q2" and t: "id_of t = tid"
      and q1: "\<forall>n\<in>set q1. id_of n \<noteq> tid"
      by blast
    have "walk sid tid pos g = (normalizeLocalOrders
        (if pos = Before then (u @ q1) @ x # t # q2 else (u @ q1) @ t # x # q2), True)"
      unfolding g v using walk_found_later [OF u' xs assms(2) q1 t] by simp
    moreover have "g = u @ x # (q1 @ t # q2)" "u @ (q1 @ t # q2) = (u @ q1) @ t # q2"
      by (simp_all add: g v)
    moreover have "\<forall>n\<in>set (u @ q1). id_of n \<noteq> tid"
      using u q1 by auto
    moreover have "\<forall>n\<in>set u. id_of n \<noteq> sid" using u by blast
    ultimately show ?thesis using xs t by blast
  next
    assume xt: "id_of x = tid"
    with assms g u have "\<exists>y\<in>set v. id_of y = sid"
      by (auto simp: contains_both_def)
    from split_list_first_prop [OF this]
    obtain p2 m q where v: "v = p2 @ m # q" and m: "id_of m = sid"
      and p2: "\<forall>n\<in>set p2. id_of n \<noteq> sid"
      by blast
    have "walk sid tid pos g = (normalizeLocalOrders
        (if pos = Before then u @ m # x # (p2 @ q) else u @ x # m # (p2 @ q)), True)"
      unfolding g v using walk_found_earlier [OF u' xt assms(2) p2 m] by simp
    moreover have "g = (u @ x # p2) @ m # q" "(u @ x # p2) @ q = u @ x # (p2 @ q)"
      by (simp_all add: g v)
    moreover have "\<forall>n\<in>set (u @ x # p2). id_of n \<noteq> sid"
      using u p2 xt assms(2) by auto
    moreover have "\<forall>n\<in>set u. id_of n \<noteq> tid" using u by blast
    ultimately show ?thesis using xt m by blast
  qed
qed

subsection \<open>normalizeLocalOrders\<close>

lemma length_normalizeLocalOrders: "length (normalizeLocalOrders l) = length l"
  by (simp add: normalizeLocalOrders_def)

lemma nth_normalizeLocalOrders:
  "i < length l \<Longrightarrow> normalizeLocalOrders l ! i = set_order (l ! i) (int i + 1)"
  by (simp add: normalizeLocalOrders_def)

lemma order_normalizeLocalOrders:
  "map order (normalizeLocalOrders l) = map int [1..<Suc (length l)]"
proof (rule nth_equalityI)
  show "length (map order (normalizeLocalOrders l)) = length (map int [1..<Suc (length l)])"
    by (simp add: normalizeLocalOrders_def del: upt_Suc)
next
  fix i assume "i < length (map order (normalizeLocalOrders l))"
  then have i: "i < length l" by (simp add: normalizeLocalOrders_def)
  then have "map int [1..<Suc (length l)] ! i = int i + 1"
    by (simp del: upt_Suc)
  with i show "map order (normalizeLocalOrders l) ! i = map int [1..<Suc (length l)] ! i"
    by (simp add: length_normalizeLocalOrders nth_normalizeLocalOrders set_order_def)
qed

lemma erase_normalizeLocalOrders:
  "map erase_order (normalizeLocalOrders l) = map erase_order l"
proof (rule nth_equalityI)
  show "length (map erase_order (normalizeLocalOrders l)) = length (map erase_order l)"
    by (simp add: normalizeLocalOrders_def)
next
  fix i assume "i < length (map erase_order (normalizeLocalOrders l))"
  then have i: "i < length l" by (simp add: normalizeLocalOrders_def)
  then show "map erase_order (normalizeLocalOrders l) ! i = map erase_order l ! i"
    by (simp add: length_normalizeLocalOrders nth_normalizeLocalOrders set_order_def
        erase_order_def)
qed

lemma id_of_erase_order: "id_of (erase_order n) = id_of n"
  by (simp add: erase_order_def set_order_def)

lemma ids_normalizeLocalOrders: "map id_of (normalizeLocalOrders l) = map id_of l"
proof -
  have "map id_of (map erase_order (normalizeLocalOrders l)) = map id_of (map erase_order l)"
    by (simp only: erase_normalizeLocalOrders)
  then show ?thesis
    by (simp add: comp_def id_of_erase_order)
qed

subsection \<open>Sibling lists of a forest\<close>

lemma tree_ids_Cons: "tree_ids (n # rest) = id_of n # tree_ids (children n) @ tree_ids rest"
  by (cases n) simp

lemma below_Cons: "below (n # rest) = children n # below (children n) @ below rest"
  by (cases n) simp

lemma tree_ids_append: "tree_ids (xs @ ys) = tree_ids xs @ tree_ids ys"
  by (induction xs) (simp_all add: tree_ids_Cons)

lemma below_append: "below (xs @ ys) = below xs @ below ys"
  by (induction xs) (simp_all add: below_Cons)

lemma top_ids_subset: "set (map id_of ns) \<subseteq> set (tree_ids ns)"
  by (induction ns) (auto simp: tree_ids_Cons)

lemma children_ids_subset: "n \<in> set ns \<Longrightarrow> set (tree_ids (children n)) \<subseteq> set (tree_ids ns)"
  by (induction ns) (auto simp: tree_ids_Cons)

lemma below_member:
  "g \<in> set (below ns) \<Longrightarrow> \<exists>n\<in>set ns. g \<in> set (groups (children n))"
  by (induction ns) (auto simp: below_Cons groups_def)

lemma groups_children_subset:
  assumes "n \<in> set ns"
  shows "set (groups (children n)) \<subseteq> set (below ns)"
proof -
  from assms obtain xs ys where "ns = xs @ n # ys"
    by (auto simp: in_set_conv_decomp)
  then show ?thesis
    by (auto simp: below_append below_Cons groups_def)
qed

lemma size_children_member:
  assumes "n \<in> set ns"
  shows "size_list size (children n) < size_list size ns"
proof -
  from assms have "size n \<le> size_list size ns"
    by (simp add: size_list_estimation')
  moreover have "size_list size (children n) < size n"
    by (cases n) simp
  ultimately show ?thesis by simp
qed

lemma group_ids_subset:
  "g \<in> set (groups ns) \<Longrightarrow> set (map id_of g) \<subseteq> set (tree_ids ns)"
proof (induction ns arbitrary: g rule: measure_induct_rule [where f = "size_list size"])
  case (less ns)
  show ?case
  proof (cases "g = ns")
    case True
    with top_ids_subset [of ns] show ?thesis by simp
  next
    case False
    with less.prems have "g \<in> set (below ns)" by (simp add: groups_def)
    from below_member [OF this] obtain n where n: "n \<in> set ns"
      and g: "g \<in> set (groups (children n))" by blast
    from n g have "set (map id_of g) \<subseteq> set (tree_ids (children n))"
      by (intro less.IH size_children_member)
    with children_ids_subset [OF n] show ?thesis by blast
  qed
qed

subsection \<open>subst_group\<close>

lemma subst_below_Cons:
  "subst_below g g' (n # rest) (n' # rest') =
     ((rest' = rest \<and> n' = set_children n (children n') \<and>
         subst_group g g' (children n) (children n'))
      \<or> (n' = n \<and> subst_below g g' rest rest'))"
  by (cases n) (simp add: set_children_def subst_group_def)

lemma subst_below_append:
  assumes "subst_group g g' (children n) cs"
  shows "subst_below g g' (xs @ n # ys) (xs @ set_children n cs # ys)"
proof (induction xs)
  case Nil
  have "children (set_children n cs) = cs"
    "set_children n (children (set_children n cs)) = set_children n cs"
    by (simp_all add: set_children_def)
  with assms show ?case by (simp add: subst_below_Cons)
next
  case (Cons x xs)
  then show ?case by (simp add: subst_below_Cons)
qed

subsection \<open>walk below a list that does not contain both ids\<close>

lemma walk_not_both:
  assumes "\<not> contains_both sid tid ns"
  shows "walk sid tid pos ns =
    (if list_ex snd (map (\<lambda>n.
            if children n = [] then (n, False)
            else if \<not> snd (walk sid tid pos (children n)) then (n, False)
            else (set_children n (fst (walk sid tid pos (children n))), True)) ns)
     then map fst (map (\<lambda>n.
            if children n = [] then (n, False)
            else if \<not> snd (walk sid tid pos (children n)) then (n, False)
            else (set_children n (fst (walk sid tid pos (children n))), True)) ns)
     else ns,
     list_ex snd (map (\<lambda>n.
            if children n = [] then (n, False)
            else if \<not> snd (walk sid tid pos (children n)) then (n, False)
            else (set_children n (fst (walk sid tid pos (children n))), True)) ns))"
proof -
  from assms have c: "(findIndex (\<lambda>n. id_of n = sid) ns \<noteq> - 1 \<and>
      findIndex (\<lambda>n. id_of n = tid) ns \<noteq> - 1) = False"
    by (simp add: contains_both_findIndex)
  show ?thesis
    by (subst walk.simps) (simp only: Let_def c if_False)
qed


lemma walk_Nil: "walk sid tid pos [] = ([], False)"
  by (subst walk.simps) simp

lemma walk_same: "\<not> snd (walk sid tid pos ns) \<Longrightarrow> fst (walk sid tid pos ns) = ns"
proof (cases "contains_both sid tid ns")
  case True
  from walk_found [OF this, of pos] show "\<not> snd (walk sid tid pos ns) \<Longrightarrow> ?thesis"
    by auto
next
  case False
  show "\<not> snd (walk sid tid pos ns) \<Longrightarrow> ?thesis"
    by (simp add: walk_not_both [OF False])
qed

text \<open>Below such a list, walk rewrites the children of each node and nothing else.\<close>

lemma walk_children:
  assumes "\<not> contains_both sid tid ns"
  shows "fst (walk sid tid pos ns) =
    map (\<lambda>n. set_children n (fst (walk sid tid pos (children n)))) ns"
proof -
  let ?F = "\<lambda>n. if children n = [] then (n, False)
            else if \<not> snd (walk sid tid pos (children n)) then (n, False)
            else (set_children n (fst (walk sid tid pos (children n))), True)"
  have same: "set_children n (children n) = n" for n
    by (cases n) (simp add: set_children_def)
  have each: "fst (?F n) = set_children n (fst (walk sid tid pos (children n)))" for n
  proof (cases "children n = []")
    case True
    with same [of n] show ?thesis by (simp add: walk_Nil)
  next
    case False
    then show ?thesis by (simp add: walk_same same)
  qed
  have all: "map fst (map ?F ns) = map (\<lambda>n. set_children n (fst (walk sid tid pos (children n)))) ns"
    unfolding map_map comp_def by (rule map_cong) (simp_all only: each)
  show ?thesis
  proof (cases "list_ex snd (map ?F ns)")
    case True
    then show ?thesis
      by (simp only: walk_not_both [OF assms] if_True fst_conv all)
  next
    case False
    then have "\<forall>n\<in>set ns. \<not> snd (?F n)"
      by (simp add: list_ex_iff)
    then have "\<forall>n\<in>set ns. ?F n = (n, False)"
      by (auto split: if_splits)
    then have "map fst (map ?F ns) = ns"
      by (simp add: map_idI)
    with all False show ?thesis
      by (simp only: walk_not_both [OF assms] if_False fst_conv)
  qed
qed

lemma walk_unchanged:
  "\<forall>g\<in>set (groups ns). \<not> contains_both sid tid g \<Longrightarrow> walk sid tid pos ns = (ns, False)"
proof (induction ns rule: measure_induct_rule [where f = "size_list size"])
  case (less ns)
  from less.prems have nb: "\<not> contains_both sid tid ns"
    by (simp add: groups_def)
  have each: "walk sid tid pos (children n) = (children n, False)" if "n \<in> set ns" for n
  proof (rule less.IH)
    show "size_list size (children n) < size_list size ns"
      using that by (rule size_children_member)
    show "\<forall>g\<in>set (groups (children n)). \<not> contains_both sid tid g"
      using less.prems groups_children_subset [OF that] by (auto simp: groups_def)
  qed
  have "map (\<lambda>n.
            if children n = [] then (n, False)
            else if \<not> snd (walk sid tid pos (children n)) then (n, False)
            else (set_children n (fst (walk sid tid pos (children n))), True)) ns
      = map (\<lambda>n. (n, False)) ns"
    by (rule map_cong) (simp_all add: each)
  then show ?case
    by (simp add: walk_not_both [OF nb] list_ex_iff)
qed

lemma walk_absent:
  assumes "sid \<notin> set (tree_ids ns)"
  shows "walk sid tid pos ns = (ns, False)"
proof (rule walk_unchanged, rule ballI)
  fix g assume "g \<in> set (groups ns)"
  from group_ids_subset [OF this] assms show "\<not> contains_both sid tid g"
    by (auto simp: contains_both_def)
qed

text \<open>With distinct ids, a sibling list that contains both ids is the one rewritten.\<close>

lemma walk_distinct:
  assumes "distinct (tree_ids ns)" "g \<in> set (groups ns)" "contains_both sid tid g"
  shows "snd (walk sid tid pos ns) \<and>
    subst_group g (fst (walk sid tid pos g)) ns (fst (walk sid tid pos ns))"
  using assms(1,2)
proof (induction ns rule: measure_induct_rule [where f = "size_list size"])
  case (less ns)
  let ?g' = "fst (walk sid tid pos g)"
  let ?F = "\<lambda>n. if children n = [] then (n, False)
            else if \<not> snd (walk sid tid pos (children n)) then (n, False)
            else (set_children n (fst (walk sid tid pos (children n))), True)"
  show ?case
  proof (cases "g = ns")
    case True
    from walk_found [OF assms(3), of pos] have "snd (walk sid tid pos g)" by auto
    with True show ?thesis
      by (simp add: subst_group_def)
  next
    case False
    with less.prems have "g \<in> set (below ns)"
      by (simp add: groups_def)
    from below_member [OF this] obtain n where n: "n \<in> set ns"
      and g: "g \<in> set (groups (children n))" by blast
    from n obtain xs ys where ns: "ns = xs @ n # ys"
      by (auto simp: in_set_conv_decomp)
    from less.prems(1) have d: "distinct (tree_ids xs @ id_of n # tree_ids (children n) @ tree_ids ys)"
      by (simp add: ns tree_ids_append tree_ids_Cons)
    from assms(3) group_ids_subset [OF g] have sc: "sid \<in> set (tree_ids (children n))"
      by (auto simp: contains_both_def)
    with d have sx: "sid \<notin> set (tree_ids xs)" and sy: "sid \<notin> set (tree_ids ys)"
      and sn: "sid \<noteq> id_of n"
      by auto
    have "sid \<notin> set (map id_of ns)"
      using sx sy sn top_ids_subset [of xs] top_ids_subset [of ys] by (auto simp: ns)
    then have nb: "\<not> contains_both sid tid ns"
      by (simp add: contains_both_def)
    have other: "?F x = (x, False)" if "x \<in> set xs \<or> x \<in> set ys" for x
    proof -
      from that sx sy children_ids_subset [of x xs] children_ids_subset [of x ys]
      have "sid \<notin> set (tree_ids (children x))" by blast
      then show ?thesis by (simp add: walk_absent)
    qed
    from d have dc: "distinct (tree_ids (children n))" by simp
    from n have "size_list size (children n) < size_list size ns"
      by (rule size_children_member)
    from less.IH [OF this dc g]
    have ih: "snd (walk sid tid pos (children n))"
      "subst_group g ?g' (children n) (fst (walk sid tid pos (children n)))"
      by simp_all
    from sc have "children n \<noteq> []" by auto
    with ih(1) have here: "?F n = (set_children n (fst (walk sid tid pos (children n))), True)"
      by simp
    have mx: "map ?F xs = map (\<lambda>x. (x, False)) xs"
      by (rule map_cong) (simp_all add: other)
    have my: "map ?F ys = map (\<lambda>x. (x, False)) ys"
      by (rule map_cong) (simp_all add: other)
    have m: "map ?F ns = map (\<lambda>x. (x, False)) xs
        @ (set_children n (fst (walk sid tid pos (children n))), True) # map (\<lambda>x. (x, False)) ys"
      unfolding ns by (simp only: map_append list.map mx my here)
    have w: "walk sid tid pos ns =
        (xs @ set_children n (fst (walk sid tid pos (children n))) # ys, True)"
      by (simp only: walk_not_both [OF nb] m) (simp add: comp_def)
    from subst_below_append [OF ih(2), of xs ys]
    have "subst_below g ?g' ns (xs @ set_children n (fst (walk sid tid pos (children n))) # ys)"
      unfolding ns .
    then show ?thesis
      by (simp add: w subst_group_def)
  qed
qed

text \<open>With distinct ids, at most one sibling list contains a given id.\<close>

lemma groups_unique:
  assumes "distinct (tree_ids ns)" "g \<in> set (groups ns)" "h \<in> set (groups ns)"
    "x \<in> set (map id_of g)" "x \<in> set (map id_of h)"
  shows "g = h"
  using assms(1,2,3)
proof (induction ns rule: measure_induct_rule [where f = "size_list size"])
  case (less ns)
  have deep: False
    if n: "n \<in> set ns" and k: "k \<in> set (groups (children n))" and xk: "x \<in> set (map id_of k)"
      and xt: "x \<in> set (map id_of ns)" for n k
  proof -
    from n obtain xs ys where ns: "ns = xs @ n # ys"
      by (auto simp: in_set_conv_decomp)
    from less.prems(1)
    have d: "distinct (tree_ids xs @ id_of n # tree_ids (children n) @ tree_ids ys)"
      by (simp add: ns tree_ids_append tree_ids_Cons)
    from xk group_ids_subset [OF k] have "x \<in> set (tree_ids (children n))" by blast
    with d have "x \<notin> set (tree_ids xs)" "x \<notin> set (tree_ids ys)" "x \<noteq> id_of n" by auto
    with xt top_ids_subset [of xs] top_ids_subset [of ys] show False
      by (auto simp: ns)
  qed
  show ?case
  proof (cases "g = ns")
    case gt: True
    show ?thesis
    proof (cases "h = ns")
      case True
      with gt show ?thesis by simp
    next
      case False
      with less.prems have "h \<in> set (below ns)" by (simp add: groups_def)
      from below_member [OF this] obtain n where "n \<in> set ns" "h \<in> set (groups (children n))"
        by blast
      from deep [OF this assms(5)] assms(4) gt show ?thesis by simp
    qed
  next
    case gf: False
    with less.prems have "g \<in> set (below ns)" by (simp add: groups_def)
    from below_member [OF this] obtain n where n: "n \<in> set ns"
      and gn: "g \<in> set (groups (children n))" by blast
    show ?thesis
    proof (cases "h = ns")
      case True
      from deep [OF n gn assms(4)] assms(5) True show ?thesis by simp
    next
      case False
      with less.prems have "h \<in> set (below ns)" by (simp add: groups_def)
      from below_member [OF this] obtain k where k: "k \<in> set ns"
        and hk: "h \<in> set (groups (children k))" by blast
      from assms(4) group_ids_subset [OF gn] have xn: "x \<in> set (tree_ids (children n))" by blast
      from assms(5) group_ids_subset [OF hk] have xk: "x \<in> set (tree_ids (children k))" by blast
      have "k = n"
      proof (rule ccontr)
        assume kn: "k \<noteq> n"
        from n obtain xs ys where ns: "ns = xs @ n # ys"
          by (auto simp: in_set_conv_decomp)
        from less.prems(1)
        have d: "distinct (tree_ids xs @ id_of n # tree_ids (children n) @ tree_ids ys)"
          by (simp add: ns tree_ids_append tree_ids_Cons)
        from k kn have "k \<in> set xs \<or> k \<in> set ys" by (auto simp: ns)
        with xk children_ids_subset [of k xs] children_ids_subset [of k ys]
        have "x \<in> set (tree_ids xs) \<or> x \<in> set (tree_ids ys)" by blast
        with d xn show False by auto
      qed
      with hk have hn: "h \<in> set (groups (children n))" by simp
      from less.prems(1) n have dc: "distinct (tree_ids (children n))"
        by (auto simp: in_set_conv_decomp tree_ids_append tree_ids_Cons)
      from n have "size_list size (children n) < size_list size ns"
        by (rule size_children_member)
      from less.IH [OF this dc gn hn] show ?thesis .
    qed
  qed
qed

subsection \<open>The rewritten lists of the result\<close>

lemma ids_set_children: "id_of (set_children n cs) = id_of n"
  by (simp add: set_children_def)

lemma children_set_children: "children (set_children n cs) = cs"
  by (simp add: set_children_def)

lemma affected_walk:
  "affected sid tid (fst (walk sid tid pos ns)) =
     map (\<lambda>g. fst (walk sid tid pos g)) (affected sid tid ns)"
proof (induction ns rule: measure_induct_rule [where f = "size_list size"])
  case (less ns)
  show ?case
  proof (cases "contains_both sid tid ns")
    case True
    from walk_found [OF True, of pos] obtain l
      where w: "walk sid tid pos ns = (normalizeLocalOrders l, True)" and l: "mset l = mset ns"
      by blast
    from l have "set (map id_of l) = set (map id_of ns)"
      by (metis mset_map set_mset_mset)
    with True have "contains_both sid tid (normalizeLocalOrders l)"
      by (simp add: contains_both_def ids_normalizeLocalOrders del: set_map)
    then show ?thesis
      using True by (simp add: affected.simps [of sid tid ns]
          affected.simps [of sid tid "normalizeLocalOrders l"] w)
  next
    case False
    let ?out = "map (\<lambda>n. set_children n (fst (walk sid tid pos (children n)))) ns"
    have out: "fst (walk sid tid pos ns) = ?out"
      by (rule walk_children [OF False])
    have ids: "map id_of ?out = map id_of ns"
      by (simp add: comp_def ids_set_children)
    from False have nb: "\<not> contains_both sid tid ?out"
      unfolding contains_both_def ids .
    have "affected sid tid ?out
        = concat (map (\<lambda>n. affected sid tid (fst (walk sid tid pos (children n)))) ns)"
      by (subst affected.simps) (simp add: nb comp_def children_set_children)
    also have "map (\<lambda>n. affected sid tid (fst (walk sid tid pos (children n)))) ns
        = map (\<lambda>n. map (\<lambda>g. fst (walk sid tid pos g)) (affected sid tid (children n))) ns"
      by (rule map_cong) (simp_all add: less.IH size_children_member)
    also have "concat \<dots> = map (\<lambda>g. fst (walk sid tid pos g))
        (concat (map (\<lambda>n. affected sid tid (children n)) ns))"
      by (simp add: map_concat comp_def)
    also have "concat (map (\<lambda>n. affected sid tid (children n)) ns) = affected sid tid ns"
      using False by (subst (2) affected.simps) simp
    finally show ?thesis
      by (simp only: out)
  qed
qed

section \<open>The reorder: claims\<close>

lemma affected_contains_both:
  "g \<in> set (affected sid tid ns) \<Longrightarrow> contains_both sid tid g"
proof (induction ns rule: measure_induct_rule [where f = "size_list size"])
  case (less ns)
  show ?case
  proof (cases "contains_both sid tid ns")
    case True
    with less.prems show ?thesis by (simp add: affected.simps [of sid tid ns])
  next
    case False
    with less.prems obtain n where n: "n \<in> set ns"
      and g: "g \<in> set (affected sid tid (children n))"
      by (auto simp: affected.simps [of sid tid ns])
    from size_children_member [OF n] g show ?thesis
      by (rule less.IH)
  qed
qed

text \<open>
  C1. Node ids are the keys of the store, so the forest has pairwise distinct ids. Let
  \<open>g\<close> be a sibling list of the forest, at any depth, that contains both ids, the two
  being different. Then \<open>g\<close> is \<open>p @ m # q\<close>
  with \<open>m\<close> the node of id \<open>sectionId\<close>, the rest \<open>p @ q\<close> is \<open>a @ t # b\<close> with \<open>t\<close>
  the node of id \<open>targetId\<close>, and the result of \<open>reorderTreeLocally\<close> is the forest with
  \<open>g\<close> replaced by the renumbered list \<open>a @ m # t # b\<close> (before) or \<open>a @ t # m # b\<close>
  (after). The statement does not ask which of the two came first, and the new list has
  the nodes of \<open>g\<close>, each once, up to their order fields.
\<close>

theorem reorder_in_place:
  assumes "distinct (tree_ids nodes)" and "g \<in> set (groups nodes)"
    and "sectionId \<in> set (map id_of g)" and "targetId \<in> set (map id_of g)"
    and "sectionId \<noteq> targetId"
  shows "\<exists>p m q a t b r.
      g = p @ m # q \<and> id_of m = sectionId \<and> (\<forall>n\<in>set p. id_of n \<noteq> sectionId) \<and>
      p @ q = a @ t # b \<and> id_of t = targetId \<and> (\<forall>n\<in>set a. id_of n \<noteq> targetId) \<and>
      r = normalizeLocalOrders (if position = Before then a @ m # t # b else a @ t # m # b) \<and>
      subst_group g r nodes (reorderTreeLocally nodes sectionId targetId position) \<and>
      reorderTreeLocally g sectionId targetId position = r \<and>
      mset (map erase_order r) = mset (map erase_order g)"
proof -
  from assms(3,4) have both: "contains_both sectionId targetId g"
    by (simp add: contains_both_def)
  from walk_in_place [OF both assms(5), of position]
  obtain p m q a t b where g: "g = p @ m # q" and m: "id_of m = sectionId"
    and p: "\<forall>n\<in>set p. id_of n \<noteq> sectionId"
    and r: "p @ q = a @ t # b" and t: "id_of t = targetId"
    and a: "\<forall>n\<in>set a. id_of n \<noteq> targetId"
    and w: "walk sectionId targetId position g =
      (normalizeLocalOrders (if position = Before then a @ m # t # b else a @ t # m # b), True)"
    by blast
  let ?r = "normalizeLocalOrders (if position = Before then a @ m # t # b else a @ t # m # b)"
  from walk_distinct [OF assms(1,2) both, of position]
  have s: "subst_group g ?r nodes (reorderTreeLocally nodes sectionId targetId position)"
    by (simp add: w reorderTreeLocally_def)
  have "mset g = add_mset m (mset (p @ q))"
    by (simp add: g)
  then have "mset g = mset (if position = Before then a @ m # t # b else a @ t # m # b)"
    by (simp add: r)
  then have e: "mset (map erase_order ?r) = mset (map erase_order g)"
    by (simp only: erase_normalizeLocalOrders mset_map)
  have "reorderTreeLocally g sectionId targetId position = ?r"
    by (simp add: reorderTreeLocally_def w)
  with g m p r t a s e show ?thesis by blast
qed

theorem reorder_in_place_witness:
  "distinct (tree_ids outline) \<and>
   [sibling ''A'' 1, sibling ''B'' 2, sibling ''C'' 3] \<in> set (groups outline) \<and>
   str ''A'' \<in> set (map id_of [sibling ''A'' 1, sibling ''B'' 2, sibling ''C'' 3]) \<and>
   str ''C'' \<in> set (map id_of [sibling ''A'' 1, sibling ''B'' 2, sibling ''C'' 3]) \<and>
   str ''A'' \<noteq> str ''C'' \<and>
   (\<exists>r. subst_group [sibling ''A'' 1, sibling ''B'' 2, sibling ''C'' 3] r outline
          (reorderTreeLocally outline (str ''A'') (str ''C'') After) \<and>
        reorderTreeLocally [sibling ''A'' 1, sibling ''B'' 2, sibling ''C'' 3]
          (str ''A'') (str ''C'') After = r)"
proof -
  let ?g = "[sibling ''A'' 1, sibling ''B'' 2, sibling ''C'' 3]"
  have h1: "distinct (tree_ids outline)"
    by (simp add: outline_def entry_def sibling_def str_def)
  have h2: "?g \<in> set (groups outline)"
    by (simp add: outline_def entry_def groups_def)
  have h3: "str ''A'' \<in> set (map id_of ?g)" and h4: "str ''C'' \<in> set (map id_of ?g)"
    by (simp_all add: sibling_def)
  have h5: "str ''A'' \<noteq> str ''C''"
    by (simp add: str_def)
  from reorder_in_place [OF h1 h2 h3 h4 h5, of After]
  have "\<exists>r. subst_group ?g r outline (reorderTreeLocally outline (str ''A'') (str ''C'') After) \<and>
        reorderTreeLocally ?g (str ''A'') (str ''C'') After = r"
    by blast
  with h1 h2 h3 h4 h5 show ?thesis by blast
qed

text \<open>
  C2. \<open>normalizeLocalOrders\<close> keeps the length, the sequence and every field but
  \<open>order\<close>, and sets the order of the node at index \<open>i\<close> to \<open>i + 1\<close>, so the orders
  are 1, ..., N. The sibling lists that \<open>reorderTreeLocally\<close> rewrites (the outermost
  ones that contain both ids) are, in the result, the reorderings of the lists of the
  input, each with the orders 1, ..., N and with the nodes it had.
\<close>

theorem renumbering:
  "length (normalizeLocalOrders l) = length l \<and>
   (\<forall>i<length l. normalizeLocalOrders l ! i = set_order (l ! i) (int i + 1)) \<and>
   map order (normalizeLocalOrders l) = map int [1..<Suc (length l)] \<and>
   map erase_order (normalizeLocalOrders l) = map erase_order l \<and>
   affected sectionId targetId (reorderTreeLocally nodes sectionId targetId position) =
     map (\<lambda>g. reorderTreeLocally g sectionId targetId position)
       (affected sectionId targetId nodes) \<and>
   (\<forall>g\<in>set (affected sectionId targetId nodes).
      map order (reorderTreeLocally g sectionId targetId position) = map int [1..<Suc (length g)] \<and>
      mset (map erase_order (reorderTreeLocally g sectionId targetId position))
        = mset (map erase_order g))"
proof -
  have "map order (reorderTreeLocally g sectionId targetId position) = map int [1..<Suc (length g)] \<and>
      mset (map erase_order (reorderTreeLocally g sectionId targetId position))
        = mset (map erase_order g)"
    if "g \<in> set (affected sectionId targetId nodes)" for g
  proof -
    from that have "contains_both sectionId targetId g"
      by (rule affected_contains_both)
    from walk_found [OF this, of position] obtain l'
      where w: "walk sectionId targetId position g = (normalizeLocalOrders l', True)"
        and l': "mset l' = mset g"
      by blast
    from l' have "length l' = length g"
      by (metis size_mset)
    moreover from l' have "mset (map erase_order l') = mset (map erase_order g)"
      by (simp only: mset_map)
    ultimately show ?thesis
      by (simp add: reorderTreeLocally_def w order_normalizeLocalOrders
          erase_normalizeLocalOrders del: upt_Suc)
  qed
  moreover have "affected sectionId targetId (reorderTreeLocally nodes sectionId targetId position) =
     map (\<lambda>g. reorderTreeLocally g sectionId targetId position)
       (affected sectionId targetId nodes)"
    unfolding reorderTreeLocally_def by (rule affected_walk)
  ultimately show ?thesis
    by (simp add: length_normalizeLocalOrders nth_normalizeLocalOrders
        order_normalizeLocalOrders erase_normalizeLocalOrders del: upt_Suc)
qed

theorem renumbering_witness:
  "(0::nat) < length [sibling ''B'' 7, sibling ''A'' 7] \<and>
   normalizeLocalOrders [sibling ''B'' 7, sibling ''A'' 7] ! 0 = set_order (sibling ''B'' 7) 1 \<and>
   [sibling ''A'' 1, sibling ''B'' 2, sibling ''C'' 3]
     \<in> set (affected (str ''A'') (str ''C'') outline) \<and>
   map order (reorderTreeLocally [sibling ''A'' 1, sibling ''B'' 2, sibling ''C'' 3]
     (str ''A'') (str ''C'') After) = [1, 2, 3]"
proof -
  let ?l = "[sibling ''B'' 7, sibling ''A'' 7]"
  let ?g = "[sibling ''A'' 1, sibling ''B'' 2, sibling ''C'' 3]"
  have h1: "(0::nat) < length ?l" by simp
  have h2: "?g \<in> set (affected (str ''A'') (str ''C'') outline)"
    by (simp add: outline_def entry_def sibling_def str_def contains_both_def affected.simps)
  from renumbering [of ?l "str ''A''" "str ''C''" outline After] h1 h2
  have "normalizeLocalOrders ?l ! 0 = set_order (?l ! 0) (int 0 + 1)"
    and "map order (reorderTreeLocally ?g (str ''A'') (str ''C'') After)
      = map int [1..<Suc (length ?g)]"
    by blast+
  with h1 h2 show ?thesis by simp
qed

text \<open>
  C10, for forests whose node ids are pairwise distinct. If no sibling list contains both
  ids the forest is returned as it is. Otherwise the list that contains both is the only
  one, and the result is the forest with this list replaced by a list of the same nodes,
  up to their order fields: nodes above it differ in their \<open>children\<close> only, and all
  other nodes are the same.
\<close>

theorem reorder_frame:
  assumes "distinct (tree_ids nodes)"
  shows "((\<forall>g\<in>set (groups nodes). \<not> contains_both sectionId targetId g) \<longrightarrow>
        reorderTreeLocally nodes sectionId targetId position = nodes) \<and>
    (\<forall>g\<in>set (groups nodes). contains_both sectionId targetId g \<longrightarrow>
        (\<forall>h\<in>set (groups nodes). contains_both sectionId targetId h \<longrightarrow> h = g) \<and>
        (\<exists>g'. subst_group g g' nodes (reorderTreeLocally nodes sectionId targetId position) \<and>
           mset (map erase_order g') = mset (map erase_order g)))"
proof (intro conjI impI ballI)
  assume "\<forall>g\<in>set (groups nodes). \<not> contains_both sectionId targetId g"
  then show "reorderTreeLocally nodes sectionId targetId position = nodes"
    by (simp add: reorderTreeLocally_def walk_unchanged)
next
  fix g h
  assume "g \<in> set (groups nodes)" "contains_both sectionId targetId g"
    "h \<in> set (groups nodes)" "contains_both sectionId targetId h"
  then show "h = g"
    using groups_unique [OF assms, of h g sectionId] by (simp add: contains_both_def)
next
  fix g
  assume g: "g \<in> set (groups nodes)" and both: "contains_both sectionId targetId g"
  from walk_found [OF both, of position] obtain l
    where w: "walk sectionId targetId position g = (normalizeLocalOrders l, True)"
      and l: "mset l = mset g"
    by blast
  from walk_distinct [OF assms g both, of position]
  have "subst_group g (normalizeLocalOrders l) nodes
      (reorderTreeLocally nodes sectionId targetId position)"
    by (simp add: w reorderTreeLocally_def)
  moreover from l have "mset (map erase_order (normalizeLocalOrders l)) = mset (map erase_order g)"
    by (simp only: erase_normalizeLocalOrders mset_map)
  ultimately show "\<exists>g'. subst_group g g' nodes
      (reorderTreeLocally nodes sectionId targetId position) \<and>
      mset (map erase_order g') = mset (map erase_order g)"
    by blast
qed

theorem reorder_frame_witness:
  "distinct (tree_ids outline) \<and>
   list_all (\<lambda>g. \<not> contains_both (str ''A'') (str ''Q'') g) (groups outline) \<and>
   reorderTreeLocally outline (str ''A'') (str ''Q'') After = outline \<and>
   [sibling ''A'' 1, sibling ''B'' 2, sibling ''C'' 3] \<in> set (groups outline) \<and>
   contains_both (str ''B'') (str ''A'') [sibling ''A'' 1, sibling ''B'' 2, sibling ''C'' 3] \<and>
   (\<exists>g'. subst_group [sibling ''A'' 1, sibling ''B'' 2, sibling ''C'' 3] g' outline
       (reorderTreeLocally outline (str ''B'') (str ''A'') Before) \<and>
     mset (map erase_order g')
       = mset (map erase_order [sibling ''A'' 1, sibling ''B'' 2, sibling ''C'' 3]))"
proof -
  let ?g = "[sibling ''A'' 1, sibling ''B'' 2, sibling ''C'' 3]"
  have h1: "distinct (tree_ids outline)"
    by (simp add: outline_def entry_def sibling_def str_def)
  have h2: "list_all (\<lambda>g. \<not> contains_both (str ''A'') (str ''Q'') g) (groups outline)"
    by (simp add: outline_def entry_def sibling_def str_def groups_def contains_both_def)
  then have h2': "\<forall>g\<in>set (groups outline). \<not> contains_both (str ''A'') (str ''Q'') g"
    by (simp add: list_all_iff)
  have h3: "?g \<in> set (groups outline)"
    by (simp add: outline_def entry_def groups_def)
  have h4: "contains_both (str ''B'') (str ''A'') ?g"
    by (simp add: sibling_def contains_both_def)
  from reorder_frame [OF h1, of "str ''A''" "str ''Q''" After] h2'
  have c1: "reorderTreeLocally outline (str ''A'') (str ''Q'') After = outline"
    by blast
  from reorder_frame [OF h1, of "str ''B''" "str ''A''" Before] h3 h4
  have c2: "\<exists>g'. subst_group ?g g' outline
       (reorderTreeLocally outline (str ''B'') (str ''A'') Before) \<and>
     mset (map erase_order g') = mset (map erase_order ?g)"
    by blast
  from h1 h2 c1 h3 h4 c2 show ?thesis by blast
qed

text \<open>
  C10 as stated, for every forest, fails where an id is used twice: in \<open>side_by_side\<close>
  both X and Y have children with the ids A and B, and both lists are rewritten. And a
  node above the rewritten list is not the node it was, since its \<open>children\<close> are
  new: the root P of \<open>outline\<close>, when A is moved after C.
\<close>

theorem reorder_frame_counterexample:
  "reorderTreeLocally side_by_side (str ''A'') (str ''B'') After =
     [entry ''X'' 1 [entry ''B'' 1 [], entry ''A'' 2 []],
      entry ''Y'' 2 [entry ''C'' 1 [], entry ''B'' 2 [], entry ''A'' 3 []]] \<and>
   children (reorderTreeLocally side_by_side (str ''A'') (str ''B'') After ! 0)
     \<noteq> children (side_by_side ! 0) \<and>
   children (reorderTreeLocally side_by_side (str ''A'') (str ''B'') After ! 1)
     \<noteq> children (side_by_side ! 1) \<and>
   reorderTreeLocally outline (str ''A'') (str ''C'') After ! 0 \<noteq> outline ! 0"
  by (simp add: side_by_side_def outline_def entry_def sibling_def str_def
      reorderTreeLocally_def walk.simps splice_def normalizeLocalOrders_def set_order_def
      set_children_def)

text \<open>
  C5. For the siblings A (order 1), B (order 2), C (order 3) under one parent, the move
  of A after C gives the list B, C, A with the orders 1, 2, 3.
\<close>

theorem move_A_after_C:
  "reorderTreeLocally [sibling ''A'' 1, sibling ''B'' 2, sibling ''C'' 3]
       (str ''A'') (str ''C'') After
     = [sibling ''B'' 1, sibling ''C'' 2, sibling ''A'' 3]"
  by (simp add: reorderTreeLocally_def walk.simps sibling_def str_def splice_def
      normalizeLocalOrders_def set_order_def)

section \<open>The handlers: claims\<close>

lemma loadSections_silent:
  "loadSections True fetched st =
     (case fetched of
        Inr data \<Rightarrow> st\<lparr>calls := calls st @ [FetchSections], tree := data\<rparr>
      | Inl e \<Rightarrow> st\<lparr>calls := calls st @ [FetchSections],
                      error := error_text e (str ''Unknown error'')\<rparr>)"
  by (simp add: loadSections_def split: sum.splits)

lemma meta_outline:
  "getNodeMeta outline (str ''A'') = Some (NodeMeta (Some (str ''P'')) 1)"
  "getNodeMeta outline (str ''C'') = Some (NodeMeta (Some (str ''P'')) 3)"
  "getNodeMeta outline (str ''Q'') = Some (NodeMeta None 2)"
  by (simp_all add: getNodeMeta_def outline_def entry_def sibling_def str_def)

subsection \<open>getNodeMeta\<close>

text \<open>
  \<open>getNodeMeta\<close> knows exactly the ids of the forest, and in a forest with distinct
  ids it records for each node that node's own \<open>parent_id\<close> and \<open>order\<close>.
\<close>

lemma tree_ids_nodes_of: "tree_ids ns = map id_of (nodes_of ns)"
  by (induction ns rule: nodes_of.induct) simp_all

lemma getNodeMeta_walk_Cons:
  "getNodeMeta_walk (SectionNode i p k nm lf ord cs # rest) meta =
     getNodeMeta_walk rest
       (if cs \<noteq> [] then getNodeMeta_walk cs (meta(i \<mapsto> NodeMeta p ord))
        else meta(i \<mapsto> NodeMeta p ord))"
  by (simp add: Let_def)

lemma getNodeMeta_walk_other:
  "i \<notin> set (tree_ids ns) \<Longrightarrow> getNodeMeta_walk ns m i = m i"
  by (induction ns m rule: getNodeMeta_walk.induct) (simp_all add: Let_def)

lemma getNodeMeta_walk_dom:
  "dom (getNodeMeta_walk ns m) = dom m \<union> set (tree_ids ns)"
proof (induction ns m rule: getNodeMeta_walk.induct)
  case (1 meta)
  show ?case by simp
next
  case (2 i p k nm lf ord cs rest meta)
  define m1 where "m1 = meta(i \<mapsto> NodeMeta p ord)"
  define m2 where "m2 = (if cs \<noteq> [] then getNodeMeta_walk cs m1 else m1)"
  have a: "dom m2 = dom m1 \<union> set (tree_ids cs)"
  proof (cases "cs = []")
    case True
    then show ?thesis by (simp add: m2_def)
  next
    case False
    have "dom (getNodeMeta_walk cs m1) = dom m1 \<union> set (tree_ids cs)"
      unfolding m1_def by (rule "2.IH"(1) [OF refl False])
    with False show ?thesis by (simp add: m2_def)
  qed
  have b: "dom (getNodeMeta_walk rest m2) = dom m2 \<union> set (tree_ids rest)"
    unfolding m2_def m1_def by (rule "2.IH"(2) [OF refl refl])
  have w: "getNodeMeta_walk (SectionNode i p k nm lf ord cs # rest) meta
      = getNodeMeta_walk rest m2"
    unfolding m2_def m1_def by (rule getNodeMeta_walk_Cons)
  have "dom m1 = insert i (dom meta)"
    by (simp add: m1_def)
  with a b show ?case
    unfolding w by auto
qed

lemma getNodeMeta_known: "getNodeMeta ns i \<noteq> None \<longleftrightarrow> i \<in> set (tree_ids ns)"
  using getNodeMeta_walk_dom [of ns Map.empty] by (auto simp: getNodeMeta_def dom_def)

lemma getNodeMeta_walk_node:
  "distinct (tree_ids ns) \<Longrightarrow> n \<in> set (nodes_of ns) \<Longrightarrow>
     getNodeMeta_walk ns m (id_of n) = Some (NodeMeta (parent_id n) (order n))"
proof (induction ns m rule: getNodeMeta_walk.induct)
  case (1 meta)
  then show ?case by simp
next
  case (2 i p k nm lf ord cs rest meta)
  define m1 where "m1 = meta(i \<mapsto> NodeMeta p ord)"
  define m2 where "m2 = (if cs \<noteq> [] then getNodeMeta_walk cs m1 else m1)"
  from "2.prems"(1) have d: "distinct (tree_ids cs)" "distinct (tree_ids rest)"
    "i \<notin> set (tree_ids cs)" "i \<notin> set (tree_ids rest)"
    "set (tree_ids cs) \<inter> set (tree_ids rest) = {}"
    by auto
  have w: "getNodeMeta_walk (SectionNode i p k nm lf ord cs # rest) meta
      = getNodeMeta_walk rest m2"
    unfolding m2_def m1_def by (rule getNodeMeta_walk_Cons)
  from "2.prems"(2) consider (self) "n = SectionNode i p k nm lf ord cs"
    | (child) "n \<in> set (nodes_of cs)" | (later) "n \<in> set (nodes_of rest)"
    by auto
  then show ?case
  proof cases
    case self
    have "getNodeMeta_walk rest m2 i = m2 i"
      using d(4) by (rule getNodeMeta_walk_other)
    also have "m2 i = m1 i"
      using d(3) by (simp add: m2_def getNodeMeta_walk_other)
    also have "m1 i = Some (NodeMeta p ord)"
      by (simp add: m1_def)
    finally show ?thesis
      unfolding w by (simp add: self)
  next
    case child
    then have cs: "cs \<noteq> []" by auto
    from child have "id_of n \<in> set (tree_ids cs)"
      by (simp add: tree_ids_nodes_of)
    with d(5) have "id_of n \<notin> set (tree_ids rest)" by auto
    then have "getNodeMeta_walk rest m2 (id_of n) = m2 (id_of n)"
      by (rule getNodeMeta_walk_other)
    also have "m2 (id_of n) = getNodeMeta_walk cs m1 (id_of n)"
      using cs by (simp add: m2_def)
    also have "\<dots> = Some (NodeMeta (parent_id n) (order n))"
      unfolding m1_def by (rule "2.IH"(1) [OF refl cs d(1) child])
    finally show ?thesis unfolding w .
  next
    case later
    have "getNodeMeta_walk rest m2 (id_of n) = Some (NodeMeta (parent_id n) (order n))"
      unfolding m2_def m1_def by (rule "2.IH"(2) [OF refl refl d(2) later])
    then show ?thesis unfolding w .
  qed
qed

lemma getNodeMeta_node:
  "distinct (tree_ids ns) \<Longrightarrow> n \<in> set (nodes_of ns) \<Longrightarrow>
     getNodeMeta ns (id_of n) = Some (NodeMeta (parent_id n) (order n))"
  by (simp add: getNodeMeta_def getNodeMeta_walk_node)

subsection \<open>The claims\<close>

text \<open>
  C4. A move of a section onto itself returns at once: the whole state, the tree and
  the list of requests in it, is as before.
\<close>

theorem move_onto_itself:
  "moveSectionByAnchor sectionId sectionId moved fetched st = st"
  by (simp add: moveSectionByAnchor_def)

text \<open>
  C3. In a forest with pairwise distinct ids, let \<open>n\<close> and \<open>m\<close> be two of its nodes,
  at any depth, whose \<open>parent_id\<close> values differ. Then \<open>moveSectionByAnchor\<close>, called
  with their ids, only sets the error message: the tree and the list of requests are as
  before, so no move request is made. And \<open>reorderTreeLocally\<close> returns the forest as
  it is when no sibling list contains both ids.
\<close>

theorem cross_parent_move:
  "(distinct (tree_ids (tree st)) \<and>
    n \<in> set (nodes_of (tree st)) \<and> m \<in> set (nodes_of (tree st)) \<and>
    parent_id n \<noteq> parent_id m \<longrightarrow>
      moveSectionByAnchor (id_of n) (id_of m) moved fetched st
        = st\<lparr>error := str ''Cross-parent moves are not allowed.''\<rparr> \<and>
      tree (moveSectionByAnchor (id_of n) (id_of m) moved fetched st) = tree st \<and>
      calls (moveSectionByAnchor (id_of n) (id_of m) moved fetched st) = calls st) \<and>
   ((\<forall>g\<in>set (groups nodes). \<not> contains_both sectionId targetId g) \<longrightarrow>
      reorderTreeLocally nodes sectionId targetId position = nodes)"
proof (intro conjI impI)
  assume h: "distinct (tree_ids (tree st)) \<and>
    n \<in> set (nodes_of (tree st)) \<and> m \<in> set (nodes_of (tree st)) \<and>
    parent_id n \<noteq> parent_id m"
  then have mn: "getNodeMeta (tree st) (id_of n) = Some (NodeMeta (parent_id n) (order n))"
    and mm: "getNodeMeta (tree st) (id_of m) = Some (NodeMeta (parent_id m) (order m))"
    by (simp_all add: getNodeMeta_node)
  from h mn mm have ne: "id_of n \<noteq> id_of m"
    by auto
  from h ne show r: "moveSectionByAnchor (id_of n) (id_of m) moved fetched st
      = st\<lparr>error := str ''Cross-parent moves are not allowed.''\<rparr>"
    by (simp add: moveSectionByAnchor_def mn mm)
  show "tree (moveSectionByAnchor (id_of n) (id_of m) moved fetched st) = tree st"
    by (simp add: r)
  show "calls (moveSectionByAnchor (id_of n) (id_of m) moved fetched st) = calls st"
    by (simp add: r)
next
  assume "\<forall>g\<in>set (groups nodes). \<not> contains_both sectionId targetId g"
  then show "reorderTreeLocally nodes sectionId targetId position = nodes"
    by (simp add: reorderTreeLocally_def walk_unchanged)
qed

theorem cross_parent_move_witness:
  "distinct (tree_ids (tree start)) \<and>
   sibling ''A'' 1 \<in> set (nodes_of (tree start)) \<and>
   entry ''Q'' 2 [] \<in> set (nodes_of (tree start)) \<and>
   parent_id (sibling ''A'' 1) \<noteq> parent_id (entry ''Q'' 2 []) \<and>
   moveSectionByAnchor (str ''A'') (str ''Q'') (Inr ()) (Inr []) start
     = start\<lparr>error := str ''Cross-parent moves are not allowed.''\<rparr> \<and>
   calls (moveSectionByAnchor (str ''A'') (str ''Q'') (Inr ()) (Inr []) start) = [] \<and>
   list_all (\<lambda>g. \<not> contains_both (str ''A'') (str ''Q'') g) (groups outline) \<and>
   reorderTreeLocally outline (str ''A'') (str ''Q'') After = outline"
proof -
  let ?a = "sibling ''A'' 1" and ?q = "entry ''Q'' 2 []"
  have h1: "distinct (tree_ids (tree start))"
    by (simp add: start_def outline_def entry_def sibling_def str_def)
  have h2: "?a \<in> set (nodes_of (tree start))" and h3: "?q \<in> set (nodes_of (tree start))"
    by (simp_all add: start_def outline_def entry_def sibling_def)
  have h4: "parent_id ?a \<noteq> parent_id ?q"
    by (simp add: entry_def sibling_def)
  have ia: "id_of ?a = str ''A''" and iq: "id_of ?q = str ''Q''"
    by (simp_all add: entry_def sibling_def)
  have h5: "list_all (\<lambda>g. \<not> contains_both (str ''A'') (str ''Q'') g) (groups outline)"
    by (simp add: outline_def entry_def sibling_def str_def groups_def contains_both_def)
  then have h5': "\<forall>g\<in>set (groups outline). \<not> contains_both (str ''A'') (str ''Q'') g"
    by (simp add: list_all_iff)
  from cross_parent_move [of start ?a ?q "Inr ()" "Inr []" outline "str ''A''" "str ''Q''" After]
    h1 h2 h3 h4 h5'
  have "moveSectionByAnchor (id_of ?a) (id_of ?q) (Inr ()) (Inr []) start
      = start\<lparr>error := str ''Cross-parent moves are not allowed.''\<rparr>"
    and "calls (moveSectionByAnchor (id_of ?a) (id_of ?q) (Inr ()) (Inr []) start) = calls start"
    and "reorderTreeLocally outline (str ''A'') (str ''Q'') After = outline"
    by blast+
  then have "moveSectionByAnchor (str ''A'') (str ''Q'') (Inr ()) (Inr []) start
      = start\<lparr>error := str ''Cross-parent moves are not allowed.''\<rparr>"
    and "calls (moveSectionByAnchor (str ''A'') (str ''Q'') (Inr ()) (Inr []) start) = []"
    and "reorderTreeLocally outline (str ''A'') (str ''Q'') After = outline"
    by (simp_all only: ia iq) (simp_all add: start_def)
  with h1 h2 h3 h4 h5 show ?thesis by blast
qed

text \<open>
  C7. When \<open>moveSectionRequest\<close> throws, the tree after \<open>moveSectionByAnchor\<close> is the
  tree before it, whatever else happens. When the move goes ahead (two different known
  ids with the same recorded parent), one move request is made; if it throws, nothing is
  fetched and the error is its message; if it succeeds, the sections are fetched, and the
  tree is what the fetch returns, or stays the locally reordered one when the fetch fails.
\<close>

theorem move_rollback:
  "tree (moveSectionByAnchor sectionId targetId (Inl e) fetched st) = tree st \<and>
   (sectionId \<noteq> targetId \<and>
    getNodeMeta (tree st) sectionId = Some dragged \<and>
    getNodeMeta (tree st) targetId = Some target \<and>
    parentId dragged = parentId target \<longrightarrow>
      calls (moveSectionByAnchor sectionId targetId (Inl e) fetched st)
        = calls st @ [MoveSection sectionId targetId
            (if meta_order dragged < meta_order target then After else Before)] \<and>
      error (moveSectionByAnchor sectionId targetId (Inl e) fetched st)
        = error_text e (str ''Move failed'') \<and>
      tree (moveSectionByAnchor sectionId targetId (Inr ()) (Inr data) st) = data \<and>
      calls (moveSectionByAnchor sectionId targetId (Inr ()) fetched st)
        = calls st @ [MoveSection sectionId targetId
            (if meta_order dragged < meta_order target then After else Before), FetchSections] \<and>
      tree (moveSectionByAnchor sectionId targetId (Inr ()) (Inl e) st)
        = reorderTreeLocally (tree st) sectionId targetId
            (if meta_order dragged < meta_order target then After else Before))"
proof (intro conjI impI)
  show "tree (moveSectionByAnchor sectionId targetId (Inl e) fetched st) = tree st"
    by (simp add: moveSectionByAnchor_def Let_def split: option.splits)
next
  assume h: "sectionId \<noteq> targetId \<and>
    getNodeMeta (tree st) sectionId = Some dragged \<and>
    getNodeMeta (tree st) targetId = Some target \<and>
    parentId dragged = parentId target"
  let ?pos = "if meta_order dragged < meta_order target then After else Before"
  from h show "calls (moveSectionByAnchor sectionId targetId (Inl e) fetched st)
      = calls st @ [MoveSection sectionId targetId ?pos]"
    by (simp add: moveSectionByAnchor_def Let_def)
  from h show "error (moveSectionByAnchor sectionId targetId (Inl e) fetched st)
      = error_text e (str ''Move failed'')"
    by (simp add: moveSectionByAnchor_def Let_def)
  from h show "tree (moveSectionByAnchor sectionId targetId (Inr ()) (Inr data) st) = data"
    by (simp add: moveSectionByAnchor_def Let_def loadSections_silent)
  from h show "calls (moveSectionByAnchor sectionId targetId (Inr ()) fetched st)
      = calls st @ [MoveSection sectionId targetId ?pos, FetchSections]"
    by (simp add: moveSectionByAnchor_def Let_def loadSections_silent split: sum.splits)
  from h show "tree (moveSectionByAnchor sectionId targetId (Inr ()) (Inl e) st)
      = reorderTreeLocally (tree st) sectionId targetId ?pos"
    by (simp add: moveSectionByAnchor_def Let_def loadSections_silent)
qed

theorem move_rollback_witness:
  "str ''A'' \<noteq> str ''C'' \<and>
   getNodeMeta (tree start) (str ''A'') = Some (NodeMeta (Some (str ''P'')) 1) \<and>
   getNodeMeta (tree start) (str ''C'') = Some (NodeMeta (Some (str ''P'')) 3) \<and>
   parentId (NodeMeta (Some (str ''P'')) 1) = parentId (NodeMeta (Some (str ''P'')) 3) \<and>
   tree (moveSectionByAnchor (str ''A'') (str ''C'') (Inl (Error (str ''Conflict''))) (Inr []) start)
     = outline \<and>
   calls (moveSectionByAnchor (str ''A'') (str ''C'') (Inl (Error (str ''Conflict''))) (Inr []) start)
     = [MoveSection (str ''A'') (str ''C'') After] \<and>
   tree (moveSectionByAnchor (str ''A'') (str ''C'') (Inr ()) (Inr []) start) = []"
proof -
  have h0: "str ''A'' \<noteq> str ''C''" by (simp add: str_def)
  have h1: "getNodeMeta (tree start) (str ''A'') = Some (NodeMeta (Some (str ''P'')) 1)"
    and h2: "getNodeMeta (tree start) (str ''C'') = Some (NodeMeta (Some (str ''P'')) 3)"
    by (simp_all add: start_def meta_outline)
  have h3: "parentId (NodeMeta (Some (str ''P'')) 1) = parentId (NodeMeta (Some (str ''P'')) 3)"
    by simp
  from move_rollback [of "str ''A''" "str ''C''" "Error (str ''Conflict'')" "Inr []" start
      "NodeMeta (Some (str ''P'')) 1" "NodeMeta (Some (str ''P'')) 3" "[]"] h0 h1 h2 h3
  have "tree (moveSectionByAnchor (str ''A'') (str ''C'') (Inl (Error (str ''Conflict''))) (Inr []) start)
      = tree start"
    and "calls (moveSectionByAnchor (str ''A'') (str ''C'') (Inl (Error (str ''Conflict''))) (Inr []) start)
      = calls start @ [MoveSection (str ''A'') (str ''C'')
          (if meta_order (NodeMeta (Some (str ''P'')) 1) < meta_order (NodeMeta (Some (str ''P'')) 3)
           then After else Before)]"
    and "tree (moveSectionByAnchor (str ''A'') (str ''C'') (Inr ()) (Inr []) start) = []"
    by blast+
  with h0 h1 h2 h3 show ?thesis by (simp add: start_def)
qed

text \<open>
  C9. For a node with children \<open>onDeleteSection\<close> opens one dialog; on OK it requests the
  deletion with the strategy \<open>cascade\<close>, otherwise it requests nothing. For a node
  without children it opens no dialog and requests the deletion with the strategy
  \<open>lift_children\<close>. So no request with \<open>lift_children\<close> is made for a node with
  children. The strategy is the query parameter of the address.
\<close>

theorem delete_strategy:
  "(children node \<noteq> [] \<and> confirmed \<longrightarrow>
      calls (onDeleteSection node confirmed deleted fetched st)
        = calls st @ DeleteSection (id_of node) Cascade
            # (case deleted of Inr _ \<Rightarrow> [FetchSections] | Inl _ \<Rightarrow> []) \<and>
      dialogs (onDeleteSection node confirmed deleted fetched st) = dialogs st + 1) \<and>
   (children node \<noteq> [] \<and> \<not> confirmed \<longrightarrow>
      onDeleteSection node confirmed deleted fetched st = st\<lparr>dialogs := dialogs st + 1\<rparr> \<and>
      calls (onDeleteSection node confirmed deleted fetched st) = calls st) \<and>
   (children node = [] \<longrightarrow>
      calls (onDeleteSection node confirmed deleted fetched st)
        = calls st @ DeleteSection (id_of node) Lift_children
            # (case deleted of Inr _ \<Rightarrow> [FetchSections] | Inl _ \<Rightarrow> []) \<and>
      dialogs (onDeleteSection node confirmed deleted fetched st) = dialogs st) \<and>
   (children node \<noteq> [] \<longrightarrow>
      DeleteSection (id_of node) Lift_children
        \<notin> set (drop (length (calls st)) (calls (onDeleteSection node confirmed deleted fetched st)))) \<and>
   deleteSectionRequest_url (id_of node) (Some Cascade)
     = API_BASE @ str ''/sections/'' @ id_of node @ str ''?strategy=cascade'' \<and>
   deleteSectionRequest_url (id_of node) (Some Lift_children)
     = API_BASE @ str ''/sections/'' @ id_of node @ str ''?strategy=lift_children''"
  by (cases deleted; cases confirmed)
     (simp_all add: onDeleteSection_def Let_def loadSections_silent
        deleteSectionRequest_url_def strategy_text_def str_def split: sum.splits)

theorem delete_strategy_witness:
  "children (entry ''P'' 1 [sibling ''A'' 1]) \<noteq> [] \<and>
   calls (onDeleteSection (entry ''P'' 1 [sibling ''A'' 1]) True (Inr ()) (Inr []) start)
     = [DeleteSection (str ''P'') Cascade, FetchSections] \<and>
   onDeleteSection (entry ''P'' 1 [sibling ''A'' 1]) False (Inr ()) (Inr []) start
     = start\<lparr>dialogs := 1\<rparr> \<and>
   children (sibling ''A'' 1) = [] \<and>
   calls (onDeleteSection (sibling ''A'' 1) False (Inl NonError) (Inr []) start)
     = [DeleteSection (str ''A'') Lift_children]"
proof -
  let ?p = "entry ''P'' 1 [sibling ''A'' 1]"
  have h1: "children ?p \<noteq> []" by (simp add: entry_def)
  have h2: "children (sibling ''A'' 1) = []" by (simp add: sibling_def)
  from delete_strategy [of ?p True "Inr ()" "Inr []" start] h1
  have c1: "calls (onDeleteSection ?p True (Inr ()) (Inr []) start)
      = calls start @ DeleteSection (id_of ?p) Cascade # [FetchSections]"
    by simp
  from delete_strategy [of ?p False "Inr ()" "Inr []" start] h1
  have c2: "onDeleteSection ?p False (Inr ()) (Inr []) start = start\<lparr>dialogs := dialogs start + 1\<rparr>"
    by simp
  from delete_strategy [of "sibling ''A'' 1" False "Inl NonError" "Inr []" start] h2
  have c3: "calls (onDeleteSection (sibling ''A'' 1) False (Inl NonError) (Inr []) start)
      = calls start @ DeleteSection (id_of (sibling ''A'' 1)) Lift_children # []"
    by simp
  from h1 h2 c1 c2 c3 show ?thesis
    by (simp add: start_def entry_def sibling_def)
qed

lemma trim_ends:
  assumes "trim s \<noteq> []"
  shows "\<not> js_whitespace (hd (trim s)) \<and> \<not> js_whitespace (last (trim s))"
proof -
  let ?u = "dropWhile js_whitespace s"
  let ?v = "dropWhile js_whitespace (rev ?u)"
  from assms have v: "?v \<noteq> []" by (simp add: trim_def)
  then have "\<not> js_whitespace (hd ?v)" by (rule hd_dropWhile)
  then have l: "\<not> js_whitespace (last (trim s))"
    using v by (simp add: trim_def last_rev)
  have "rev ?u = takeWhile js_whitespace (rev ?u) @ ?v" by simp
  then have "rev (rev ?u) = rev (takeWhile js_whitespace (rev ?u) @ ?v)" by (rule arg_cong)
  then have u: "?u = rev ?v @ rev (takeWhile js_whitespace (rev ?u))"
    by (simp only: rev_rev_ident rev_append)
  from v have "hd (rev ?v @ rev (takeWhile js_whitespace (rev ?u))) = hd (rev ?v)"
    by simp
  with u have hu: "hd ?u = hd (trim s)" by (simp add: trim_def)
  from u v have "?u \<noteq> []" by (metis append_is_Nil_conv rev_is_Nil_conv)
  then have "\<not> js_whitespace (hd ?u)" by (rule hd_dropWhile)
  with hu l show ?thesis by simp
qed

text \<open>
  C6. \<open>handleSave\<close> calls \<open>onRename\<close> if and only if the trimmed draft is not empty and
  differs from the node's name. If not, it closes the edit, resets the draft to the name
  and leaves the owner's state alone. If so, it closes the edit and calls \<open>onRename\<close>
  with the node's id and the trimmed draft, which has no white space at either end; with
  \<open>renameSection\<close> for \<open>onRename\<close> that is one rename request with this name, followed
  by a fetch when it succeeds.
\<close>

theorem rename_guard:
  "(trim (draftName row) = [] \<or> trim (draftName row) = name node \<longrightarrow>
      handleSave onRename node (row, app) = (row\<lparr>isEditing := False, draftName := name node\<rparr>, app)) \<and>
   (trim (draftName row) \<noteq> [] \<and> trim (draftName row) \<noteq> name node \<longrightarrow>
      handleSave onRename node (row, app)
        = (row\<lparr>isEditing := False\<rparr>, onRename (id_of node) (trim (draftName row)) app) \<and>
      calls (snd (handleSave (\<lambda>i n. renameSection i n renamed fetched) node (row, st)))
        = calls st @ RenameSection (id_of node) (trim (draftName row))
            # (case renamed of Inr _ \<Rightarrow> [FetchSections] | Inl _ \<Rightarrow> []) \<and>
      \<not> js_whitespace (hd (trim (draftName row))) \<and>
      \<not> js_whitespace (last (trim (draftName row))))"
proof (intro conjI impI)
  assume "trim (draftName row) = [] \<or> trim (draftName row) = name node"
  then show "handleSave onRename node (row, app)
      = (row\<lparr>isEditing := False, draftName := name node\<rparr>, app)"
    by (auto simp: handleSave_def Let_def)
next
  assume h: "trim (draftName row) \<noteq> [] \<and> trim (draftName row) \<noteq> name node"
  then show "handleSave onRename node (row, app)
      = (row\<lparr>isEditing := False\<rparr>, onRename (id_of node) (trim (draftName row)) app)"
    by (simp add: handleSave_def Let_def)
  from h show "calls (snd (handleSave (\<lambda>i n. renameSection i n renamed fetched) node (row, st)))
      = calls st @ RenameSection (id_of node) (trim (draftName row))
          # (case renamed of Inr _ \<Rightarrow> [FetchSections] | Inl _ \<Rightarrow> [])"
    by (simp add: handleSave_def Let_def renameSection_def loadSections_silent split: sum.splits)
  from h trim_ends [of "draftName row"]
  show "\<not> js_whitespace (hd (trim (draftName row)))"
    and "\<not> js_whitespace (last (trim (draftName row)))"
    by simp_all
qed

theorem rename_guard_witness:
  "trim (draftName \<lparr>isEditing = True, draftName = str ''  ''\<rparr>) = [] \<and>
   handleSave (\<lambda>i n. renameSection i n (Inr ()) (Inr [])) (sibling ''A'' 1)
       (\<lparr>isEditing = True, draftName = str ''  ''\<rparr>, start)
     = (\<lparr>isEditing = False, draftName = str ''A''\<rparr>, start) \<and>
   trim (draftName \<lparr>isEditing = True, draftName = str '' Intro ''\<rparr>) = str ''Intro'' \<and>
   str ''Intro'' \<noteq> name (sibling ''A'' 1) \<and>
   calls (snd (handleSave (\<lambda>i n. renameSection i n (Inr ()) (Inr [])) (sibling ''A'' 1)
       (\<lparr>isEditing = True, draftName = str '' Intro ''\<rparr>, start)))
     = [RenameSection (str ''A'') (str ''Intro''), FetchSections]"
proof -
  let ?r1 = "\<lparr>isEditing = True, draftName = str ''  ''\<rparr>"
  let ?r2 = "\<lparr>isEditing = True, draftName = str '' Intro ''\<rparr>"
  let ?f = "\<lambda>i n. renameSection i n (Inr ()) (Inr [])"
  have h1: "trim (draftName ?r1) = []"
    by (simp add: trim_def str_def js_whitespace_def)
  have h2: "trim (draftName ?r2) = str ''Intro''"
    by (simp add: trim_def str_def js_whitespace_def)
  have h3: "str ''Intro'' \<noteq> name (sibling ''A'' 1)"
    by (simp add: sibling_def str_def)
  have h4: "str ''Intro'' \<noteq> []" by (simp add: str_def)
  from rename_guard [of ?r1 "sibling ''A'' 1" ?f start "Inr ()" "Inr []" start] h1
  have c1: "handleSave ?f (sibling ''A'' 1) (?r1, start)
      = (?r1\<lparr>isEditing := False, draftName := name (sibling ''A'' 1)\<rparr>, start)"
    by blast
  from h2 h3 h4 have g: "trim (draftName ?r2) \<noteq> [] \<and> trim (draftName ?r2) \<noteq> name (sibling ''A'' 1)"
    by simp
  note r = rename_guard [of ?r2 "sibling ''A'' 1" ?f start "Inr ()" "Inr []" start,
      THEN conjunct2, THEN mp, OF g]
  from r have c2: "calls (snd (handleSave ?f (sibling ''A'' 1) (?r2, start)))
      = calls start @ RenameSection (id_of (sibling ''A'' 1)) (trim (draftName ?r2))
          # (case (Inr () :: js_error + unit) of Inr _ \<Rightarrow> [FetchSections] | Inl _ \<Rightarrow> [])"
    by (rule conjunct2 [THEN conjunct1])
  from h1 h2 h3 c1 c2 show ?thesis
    by (simp add: start_def sibling_def)
qed





end
